theory Spec2Isabelle
  imports Complex_Main "HOL-Library.Word"
begin

section \<open>Strings of the source language\<close>

text \<open>
  A JavaScript string is a finite sequence of 16-bit code units. String literals of the
  source are all ASCII; \<open>lit\<close> turns an ASCII literal into its code units.
\<close>

type_synonym code_unit = "16 word"
type_synonym js_string = "code_unit list"

definition lit :: "string \<Rightarrow> js_string" where
  "lit cs = map (\<lambda>c. word_of_nat (of_char c)) cs"

text \<open>\<^verbatim>\<open>s.startsWith(p)\<close>, \<^verbatim>\<open>s.endsWith(p)\<close> and \<^verbatim>\<open>s.slice(0, -1)\<close>.\<close>

definition startsWith :: "js_string \<Rightarrow> js_string \<Rightarrow> bool" where
  "startsWith s p = (take (length p) s = p)"

definition endsWith :: "js_string \<Rightarrow> js_string \<Rightarrow> bool" where
  "endsWith s p = (length p \<le> length s \<and> drop (length s - length p) s = p)"

definition slice_0_minus1 :: "js_string \<Rightarrow> js_string" where
  "slice_0_minus1 s = take (length s - 1) s"

text \<open>
  \<^verbatim>\<open>s.trim()\<close> removes the leading and trailing code units that are WhiteSpace or
  LineTerminator in ECMAScript: TAB, LF, VT, FF, CR, SP, NBSP, U+1680, U+2000 to U+200A,
  U+2028, U+2029, U+202F, U+205F, U+3000 and U+FEFF.
\<close>

definition is_js_space :: "code_unit \<Rightarrow> bool" where
  "is_js_space c =
     (c = 0x0009 \<or> c = 0x000A \<or> c = 0x000B \<or> c = 0x000C \<or> c = 0x000D \<or> c = 0x0020 \<or>
      c = 0x00A0 \<or> c = 0x1680 \<or> (0x2000 \<le> c \<and> c \<le> 0x200A) \<or> c = 0x2028 \<or>
      c = 0x2029 \<or> c = 0x202F \<or> c = 0x205F \<or> c = 0x3000 \<or> c = 0xFEFF)"

definition trim :: "js_string \<Rightarrow> js_string" where
  "trim s = rev (dropWhile is_js_space (rev (dropWhile is_js_space s)))"


section \<open>Target resolver: \<open>normalizeUrl\<close>\<close>

text \<open>
  \<^verbatim>\<open>
  const normalizeUrl = (url) => {
    if (!url.startsWith('http://') && !url.startsWith('https://')) {
      url = 'https://' + url;
    }
    return url.endsWith('/') ? url.slice(0, -1) : url;
  };
  \<close>
\<close>

definition normalizeUrl :: "js_string \<Rightarrow> js_string" where
  "normalizeUrl raw =
     (let u = (if \<not> startsWith raw (lit ''http://'') \<and> \<not> startsWith raw (lit ''https://'')
               then lit ''https://'' @ raw else raw)
      in if endsWith u (lit ''/'') then slice_0_minus1 u else u)"


section \<open>One probe: \<open>checkPath\<close>\<close>

text \<open>
  A thrown value of the source is an error object, of which the code reads \<open>name\<close> and
  \<open>message\<close>. The \<^verbatim>\<open>fetch\<close> of \<open>checkPath\<close> either resolves, with a response that
  \<^verbatim>\<open>mode: 'no-cors'\<close> makes opaque and that the code never reads, or rejects with an
  error object. The clock reading of \<^verbatim>\<open>new Date().toISOString()\<close> is an input.
\<close>

record js_error =
  name :: js_string
  message :: js_string

datatype fetch_outcome = Resolved | Rejected js_error

record probe_result =
  path :: js_string
  url :: js_string
  status :: js_string
  found :: bool
  timestamp :: js_string

text \<open>
  \<^verbatim>\<open>
  const checkPath = async (baseUrl, path) => {
    const url = `${baseUrl}/${path}`;
    try {
      const response = await fetch(url, {...});
      return { path, url, status: 'Unknown (CORS)', found: true,
               timestamp: new Date().toISOString() };
    } catch (error) {
      if (error.name === 'AbortError') { throw error; }
      return { path, url, status: error.message, found: false,
               timestamp: new Date().toISOString() };
    }
  };
  \<close>
  The result is \<open>Inl\<close> of the error that \<open>checkPath\<close> throws, or \<open>Inr\<close> of the record
  that it returns.
\<close>

definition checkPath ::
    "js_string \<Rightarrow> js_string \<Rightarrow> fetch_outcome \<Rightarrow> js_string \<Rightarrow> js_error + probe_result" where
  "checkPath base p outcome now =
     (let u = base @ lit ''/'' @ p in
      case outcome of
        Resolved \<Rightarrow>
          Inr \<lparr>path = p, url = u, status = lit ''Unknown (CORS)'', found = True,
               timestamp = now\<rparr>
      | Rejected error \<Rightarrow>
          if name error = lit ''AbortError'' then Inl error
          else Inr \<lparr>path = p, url = u, status = message error, found = False,
                    timestamp = now\<rparr>)"


section \<open>The scan controller: \<open>startScan\<close>, \<open>stopScan\<close>, \<open>togglePause\<close>\<close>

text \<open>The wordlist \<open>commonPaths\<close> of the component.\<close>

definition commonPaths :: "js_string list" where
  "commonPaths = map lit
     [''admin'', ''administrator'', ''login'', ''dashboard'', ''wp-admin'', ''phpmyadmin'',
      ''cpanel'', ''panel'', ''control'', ''api'', ''backup'', ''backups'', ''db'', ''database'',
      ''config'', ''configuration'', ''settings'', ''setup'', ''install'', ''old'', ''new'',
      ''test'', ''demo'', ''dev'', ''development'', ''staging'', ''beta'', ''temp'', ''tmp'',
      ''private'', ''secret'', ''hidden'', ''uploads'', ''images'', ''img'', ''files'', ''docs'',
      ''documents'', ''download'', ''downloads'', ''static'', ''assets'', ''css'', ''js'',
      ''scripts'', ''includes'', ''inc'', ''lib'', ''libraries'', ''vendor'', ''node_modules'',
      ''logs'', ''log'', ''errors'', ''debug'', ''trace'', ''admin.php'', ''login.php'',
      ''config.php'', ''database.php'', ''.git'', ''.env'', ''.htaccess'', ''robots.txt'',
      ''sitemap.xml'', ''wp-config.php'', ''web.config'', ''README.md'', ''LICENSE'']"

text \<open>
  The statistics object \<^verbatim>\<open>{ found, notFound, errors }\<close>; its fields carry the prefix
  \<open>s_\<close> here, since \<open>found\<close> is also a field of a probe result.
\<close>

record scan_stats =
  s_found :: nat
  s_notFound :: nat
  s_errors :: nat

definition zero_stats :: scan_stats where
  "zero_stats = \<lparr>s_found = 0, s_notFound = 0, s_errors = 0\<rparr>"

text \<open>
  \<open>startScan\<close> is an asynchronous function: a call runs until its next \<^verbatim>\<open>await\<close>, and is
  resumed by the event that settles the awaited promise. \<open>control\<close> is the place where an
  invocation is suspended, with the loop index \<open>i\<close>: in the pause poll (lines 85 to 92), in
  the \<^verbatim>\<open>fetch\<close> of \<open>checkPath\<close> (line 96), or in the delay after a probe (line 110).
  A \<^verbatim>\<open>fetch\<close> in flight keeps the signal that it was given: the number of the controller
  that owns the signal, or \<open>None\<close> when \<^verbatim>\<open>abortControllerRef.current?.signal\<close> was
  \<^verbatim>\<open>undefined\<close>. \<open>Running\<close> is an invocation that executes, and \<open>Returned\<close> one that
  has returned.
\<close>

datatype control =
  Running | AwaitPause nat | AwaitFetch nat "nat option" | AwaitDelay nat | Returned

text \<open>
  The frame of one invocation of \<open>startScan\<close>: its control point, the value of \<open>isPaused\<close>
  that its closure holds (a \<^verbatim>\<open>const\<close> of the render that created the handler), and its
  locals \<open>baseUrl\<close> and \<open>currentStats\<close>.
\<close>

record frame =
  pc :: control
  closurePaused :: bool
  baseUrl :: js_string
  currentStats :: scan_stats

text \<open>
  The state of the component: the React state variables; the \<^verbatim>\<open>AbortController\<close> objects
  created so far, each with the \<^verbatim>\<open>aborted\<close> flag of its signal; the
  \<open>abortControllerRef\<close> (\<open>None\<close> is \<^verbatim>\<open>null\<close>, \<open>Some c\<close> the controller number \<open>c\<close>); and
  the frames of all invocations of \<open>startScan\<close> so far, in the order of the calls. Nothing
  in the source keeps a second call from being made while an earlier invocation is still
  suspended, so several frames can be live. The double of \<open>progress\<close> is kept as the exact
  fraction.
\<close>

record fuzzer =
  targetUrl :: js_string
  isScanning :: bool
  isPaused :: bool
  results :: "probe_result list"
  progress :: rat
  stats :: scan_stats
  controllers :: "bool list"
  abortControllerRef :: "nat option"
  frames :: "frame list"

text \<open>
  The \<^verbatim>\<open>aborted\<close> flag of a signal, and \<^verbatim>\<open>abortControllerRef.current?.signal.aborted\<close>,
  which reads the controller that the ref holds at the time of the test and is falsy when
  the ref is \<^verbatim>\<open>null\<close>.
\<close>

definition aborted :: "fuzzer \<Rightarrow> nat option \<Rightarrow> bool" where
  "aborted s sig =
     (case sig of None \<Rightarrow> False | Some c \<Rightarrow> c < length (controllers s) \<and> controllers s ! c)"

definition signal_aborted :: "fuzzer \<Rightarrow> bool" where
  "signal_aborted s = aborted s (abortControllerRef s)"

text \<open>
  \<^verbatim>\<open>commonPaths[i]\<close>; out of range JavaScript yields \<^verbatim>\<open>undefined\<close>, which the template
  literal of \<open>checkPath\<close> prints as the text below. The loop guard keeps \<open>i\<close> in range.
\<close>

definition candidate :: "js_string list \<Rightarrow> nat \<Rightarrow> js_string" where
  "candidate W i = (if i < length W then W ! i else lit ''undefined'')"

text \<open>An update of the frame of invocation \<open>k\<close>.\<close>

definition upd_frame :: "nat \<Rightarrow> (frame \<Rightarrow> frame) \<Rightarrow> fuzzer \<Rightarrow> fuzzer" where
  "upd_frame k f s = s\<lparr>frames := (frames s)[k := f (frames s ! k)]\<rparr>"

text \<open>The two statements after the loop (lines 118 and 119), and the return.\<close>

definition finish :: "fuzzer \<Rightarrow> nat \<Rightarrow> fuzzer" where
  "finish s k = upd_frame k (\<lambda>f. f\<lparr>pc := Returned\<rparr>) (s\<lparr>isScanning := False, isPaused := False\<rparr>)"

text \<open>
  Line 96 calls \<open>checkPath\<close>, whose \<^verbatim>\<open>fetch\<close> is given the signal of the controller that
  the ref holds now. With a signal that is already aborted the \<^verbatim>\<open>fetch\<close> rejects at once
  with an \<open>AbortError\<close>, which \<open>checkPath\<close> rethrows (line 53) and the loop turns into
  \<^verbatim>\<open>break\<close> (line 112). Otherwise the invocation is suspended until the \<^verbatim>\<open>fetch\<close>
  settles.
\<close>

definition call_checkPath :: "fuzzer \<Rightarrow> nat \<Rightarrow> nat \<Rightarrow> fuzzer" where
  "call_checkPath s k i =
     (if signal_aborted s then finish s k
      else upd_frame k (\<lambda>f. f\<lparr>pc := AwaitFetch i (abortControllerRef s)\<rparr>) s)"

text \<open>
  The head of the loop of invocation \<open>k\<close> at index \<open>i\<close> (lines 82 to 93), up to the next
  \<^verbatim>\<open>await\<close>. The test of line 83 reads the ref, not a controller of the invocation's
  own; the test of line 84 reads the \<open>isPaused\<close> of the closure.
\<close>

definition loop_head :: "js_string list \<Rightarrow> fuzzer \<Rightarrow> nat \<Rightarrow> nat \<Rightarrow> fuzzer" where
  "loop_head W s k i =
     (if i < length W then
        (if signal_aborted s then finish s k
         else if closurePaused (frames s ! k) then upd_frame k (\<lambda>f. f\<lparr>pc := AwaitPause i\<rparr>) s
         else call_checkPath s k i)
      else finish s k)"

text \<open>
  \<^verbatim>\<open>
      try {
        const result = await checkPath(baseUrl, commonPaths[i]);
        setResults(prev => [result, ...prev]);
        if (result.found) { currentStats.found++; } else { currentStats.notFound++; }
        setStats({ ...currentStats });
        setProgress(((i + 1) / commonPaths.length) * 100);
        await new Promise(resolve => setTimeout(resolve, 100));
      } catch (error) {
        if (error.name === 'AbortError') break;
        currentStats.errors++;
        setStats({ ...currentStats });
      }
  \<close>
  \<open>after_checkPath\<close> is the body of the loop of invocation \<open>k\<close> from the point where
  \<open>checkPath\<close> has returned or thrown, up to the next \<^verbatim>\<open>await\<close>.
\<close>

definition after_checkPath ::
    "js_string list \<Rightarrow> fuzzer \<Rightarrow> nat \<Rightarrow> nat \<Rightarrow> js_error + probe_result \<Rightarrow> fuzzer" where
  "after_checkPath W s k i r =
     (let cur = currentStats (frames s ! k) in
      case r of
        Inr result \<Rightarrow>
          (let cs = (if found result then cur\<lparr>s_found := s_found cur + 1\<rparr>
                     else cur\<lparr>s_notFound := s_notFound cur + 1\<rparr>)
           in upd_frame k (\<lambda>f. f\<lparr>currentStats := cs, pc := AwaitDelay i\<rparr>)
                (s\<lparr>results := result # results s,
                   stats := cs,
                   progress := (of_nat (i + 1) / of_nat (length W)) * 100\<rparr>))
      | Inl error \<Rightarrow>
          if name error = lit ''AbortError'' then finish s k
          else (let cs = cur\<lparr>s_errors := s_errors cur + 1\<rparr>
                in loop_head W (upd_frame k (\<lambda>f. f\<lparr>currentStats := cs\<rparr>) (s\<lparr>stats := cs\<rparr>))
                     k (i + 1)))"

text \<open>
  \<^verbatim>\<open>
  const startScan = async () => {
    if (!targetUrl.trim()) { alert('Please enter a target URL'); return; }
    setIsScanning(true); setIsPaused(false); setResults([]); setProgress(0);
    setStats({ found: 0, notFound: 0, errors: 0 });
    const baseUrl = normalizeUrl(targetUrl);
    abortControllerRef.current = new AbortController();
    let currentStats = { found: 0, notFound: 0, errors: 0 };
    for (let i = 0; i < commonPaths.length; i++) { ... }
    setIsScanning(false); setIsPaused(false);
  };
  \<close>
  A call runs up to its first \<^verbatim>\<open>await\<close>. It yields the message of the \<^verbatim>\<open>alert\<close>, if
  one is shown, and the state. A call that passes the test of line 66 is a new
  invocation, with a new frame and a new controller, which replaces the one in the ref;
  the frames of earlier invocations stay as they are.
\<close>

definition startScan :: "js_string list \<Rightarrow> fuzzer \<Rightarrow> js_string option \<times> fuzzer" where
  "startScan W s =
     (if trim (targetUrl s) = [] then (Some (lit ''Please enter a target URL''), s)
      else (None,
            loop_head W
              (s\<lparr>isScanning := True, isPaused := False, results := [], progress := 0,
                 stats := zero_stats,
                 controllers := controllers s @ [False],
                 abortControllerRef := Some (length (controllers s)),
                 frames := frames s @
                   [\<lparr>pc = Running, closurePaused = isPaused s,
                     baseUrl = normalizeUrl (targetUrl s), currentStats = zero_stats\<rparr>]\<rparr>)
              (length (frames s)) 0))"

text \<open>
  \<^verbatim>\<open>
  const stopScan = () => {
    abortControllerRef.current?.abort();
    setIsScanning(false);
    setIsPaused(false);
  };
  const togglePause = () => { setIsPaused(!isPaused); };
  \<close>
\<close>

definition stopScan :: "fuzzer \<Rightarrow> fuzzer" where
  "stopScan s =
     s\<lparr>controllers :=
         (case abortControllerRef s of
            None \<Rightarrow> controllers s
          | Some c \<Rightarrow> (controllers s)[c := True]),
       isScanning := False, isPaused := False\<rparr>"

definition togglePause :: "fuzzer \<Rightarrow> fuzzer" where
  "togglePause s = s\<lparr>isPaused := \<not> isPaused s\<rparr>"

text \<open>
  \<open>abort()\<close> rejects, within the handler's turn, every \<^verbatim>\<open>fetch\<close> in flight that was given the
  aborted signal, with an \<open>AbortError\<close>; each invocation that waits for such a \<^verbatim>\<open>fetch\<close>
  is resumed with that rejection.
\<close>

definition abort_error :: js_error where
  "abort_error = \<lparr>name = lit ''AbortError'', message = lit ''The user aborted a request.''\<rparr>"

definition reject_aborted :: "js_string list \<Rightarrow> js_string \<Rightarrow> fuzzer \<Rightarrow> nat \<Rightarrow> fuzzer" where
  "reject_aborted W now s k =
     (case pc (frames s ! k) of
        AwaitFetch i sig \<Rightarrow>
          if aborted s sig
          then after_checkPath W s k i
                 (checkPath (baseUrl (frames s ! k)) (candidate W i) (Rejected abort_error) now)
          else s
      | _ \<Rightarrow> s)"

text \<open>
  The events that call a handler of the page or resume an invocation:
  \<^item> a click on Start, rendered only while \<open>isScanning\<close> is false (lines 185 to 192);
  \<^item> typing into the target field, which is disabled while \<open>isScanning\<close> is true;
  \<^item> a click on Stop or on Pause/Resume, rendered only while \<open>isScanning\<close> is true;
  \<^item> for invocation \<open>k\<close>: its \<^verbatim>\<open>fetch\<close> in flight settles, the timer of its delay fires,
    the interval of its pause poll ticks.
  Each event is handled at a clock reading \<open>now\<close>. An event that has no receiver leaves the
  state as it is: a click on a control that is not rendered or is disabled, and a settled
  \<^verbatim>\<open>fetch\<close>, a timer or a tick for an invocation that does not wait for it.
\<close>

datatype event =
    StartClicked
  | TargetTyped js_string
  | StopClicked
  | PauseClicked
  | FetchSettled nat fetch_outcome
  | TimerFired nat
  | IntervalTick nat

definition on_event :: "js_string list \<Rightarrow> fuzzer \<Rightarrow> event \<Rightarrow> js_string \<Rightarrow> fuzzer" where
  "on_event W s ev now =
     (case ev of
        StartClicked \<Rightarrow> if \<not> isScanning s then snd (startScan W s) else s
      | TargetTyped v \<Rightarrow> if \<not> isScanning s then s\<lparr>targetUrl := v\<rparr> else s
      | StopClicked \<Rightarrow>
          if isScanning s
          then foldl (reject_aborted W now) (stopScan s) [0..<length (frames s)]
          else s
      | PauseClicked \<Rightarrow> if isScanning s then togglePause s else s
      | FetchSettled k outcome \<Rightarrow>
          if k < length (frames s) then
            (case pc (frames s ! k) of
               AwaitFetch i sig \<Rightarrow>
                 after_checkPath W s k i
                   (checkPath (baseUrl (frames s ! k)) (candidate W i) outcome now)
             | _ \<Rightarrow> s)
          else s
      | TimerFired k \<Rightarrow>
          if k < length (frames s) then
            (case pc (frames s ! k) of AwaitDelay i \<Rightarrow> loop_head W s k (i + 1) | _ \<Rightarrow> s)
          else s
      | IntervalTick k \<Rightarrow>
          if k < length (frames s) then
            (case pc (frames s ! k) of
               AwaitPause i \<Rightarrow>
                 if \<not> closurePaused (frames s ! k) \<or> signal_aborted s
                 then call_checkPath s k i else s
             | _ \<Rightarrow> s)
          else s)"

text \<open>
  \<open>run\<close>: the events \<open>evs\<close>, each with its clock reading, handled one after the other from
  state \<open>s\<close>. \<open>scan\<close>: a call of \<open>startScan\<close> in state \<open>s\<close>, followed by the events \<open>evs\<close>.
\<close>

definition run :: "js_string list \<Rightarrow> fuzzer \<Rightarrow> (event \<times> js_string) list \<Rightarrow> fuzzer" where
  "run W s evs = foldl (\<lambda>t (ev, now). on_event W t ev now) s evs"

definition scan :: "js_string list \<Rightarrow> fuzzer \<Rightarrow> (event \<times> js_string) list \<Rightarrow> fuzzer" where
  "scan W s evs = run W (snd (startScan W s)) evs"

text \<open>
  The state of the component when it is mounted (the arguments of \<^verbatim>\<open>useState\<close> and
  \<^verbatim>\<open>useRef\<close>): no controller and no invocation of \<open>startScan\<close> yet.
\<close>

definition initial :: fuzzer where
  "initial =
     \<lparr>targetUrl = [], isScanning = False, isPaused = False, results = [], progress = 0,
      stats = zero_stats, controllers = [], abortControllerRef = None, frames = []\<rparr>"

section \<open>Notions used by the properties\<close>

text \<open>
  \<open>quiet\<close>: no invocation of \<open>startScan\<close> is suspended. The events that cancel a scan are
  a click on Stop and a \<^verbatim>\<open>fetch\<close> that rejects with an \<open>AbortError\<close>, which a browser
  raises only for an aborted signal. \<open>total\<close> is the number of outcomes that a statistics
  object has counted.
\<close>

definition quiet :: "fuzzer \<Rightarrow> bool" where
  "quiet s = (\<forall>f\<in>set (frames s). pc f = Returned)"

fun cancels :: "event \<Rightarrow> bool" where
  "cancels StopClicked = True"
| "cancels (FetchSettled k (Rejected e)) = (name e = lit ''AbortError'')"
| "cancels _ = False"

definition total :: "scan_stats \<Rightarrow> nat" where
  "total st = s_found st + s_notFound st + s_errors st"

text \<open>
  Invariants of a scan whose invocation, number \<open>n\<close>, is the only one that is not
  finished. \<open>solo\<close>: all earlier invocations have returned, the ref holds a controller,
  and a \<^verbatim>\<open>fetch\<close> in flight has the signal of that controller, not aborted. \<open>in_order\<close>:
  while nothing has cancelled the scan, the paths of the results are the candidates
  handled so far, the newest first. \<open>stopped\<close>: \<open>stopScan\<close> has run. \<open>counted\<close>: the
  published statistics are those of the invocation and count the results.
\<close>

definition solo :: "nat \<Rightarrow> fuzzer \<Rightarrow> bool" where
  "solo n s =
     (length (frames s) = Suc n \<and> (\<forall>j<n. pc (frames s ! j) = Returned) \<and>
      (\<exists>c. abortControllerRef s = Some c \<and> c < length (controllers s)) \<and>
      (case pc (frames s ! n) of
         Running \<Rightarrow> False
       | AwaitFetch i sig \<Rightarrow> sig = abortControllerRef s \<and> \<not> signal_aborted s
       | _ \<Rightarrow> True))"

definition in_order :: "js_string list \<Rightarrow> nat \<Rightarrow> fuzzer \<Rightarrow> bool" where
  "in_order W n s =
     (solo n s \<and> \<not> signal_aborted s \<and>
      (case pc (frames s ! n) of
         Running \<Rightarrow> False
       | AwaitPause i \<Rightarrow> i < length W \<and> map path (results s) = rev (take i W)
       | AwaitFetch i sig \<Rightarrow> i < length W \<and> map path (results s) = rev (take i W)
       | AwaitDelay i \<Rightarrow> i < length W \<and> map path (results s) = rev (take (Suc i) W)
       | Returned \<Rightarrow> map path (results s) = rev W))"

definition stopped :: "nat \<Rightarrow> fuzzer \<Rightarrow> bool" where
  "stopped n s = (solo n s \<and> \<not> isScanning s \<and> signal_aborted s)"

definition counted :: "nat \<Rightarrow> fuzzer \<Rightarrow> bool" where
  "counted n s =
     (solo n s \<and> stats s = currentStats (frames s ! n) \<and> total (stats s) = length (results s))"


section \<open>Auxiliary facts\<close>

subsection \<open>Strings\<close>

lemma endsWith_iff: "endsWith s p \<longleftrightarrow> (\<exists>t. s = t @ p)"
proof
  assume "endsWith s p"
  then have "s = take (length s - length p) s @ p"
    by (metis append_take_drop_id endsWith_def)
  then show "\<exists>t. s = t @ p" ..
next
  assume "\<exists>t. s = t @ p"
  then show "endsWith s p" by (auto simp: endsWith_def)
qed

lemma endsWith_slash: "endsWith s (lit ''/'') \<longleftrightarrow> s \<noteq> [] \<and> last s = 47"
  by (cases s rule: rev_cases) (auto simp: endsWith_iff lit_def)

lemma endsWith_slash2:
  "endsWith s (lit ''//'') \<longleftrightarrow>
     s \<noteq> [] \<and> last s = 47 \<and> butlast s \<noteq> [] \<and> last (butlast s) = 47"
proof (cases s rule: rev_cases)
  case Nil
  then show ?thesis by (simp add: endsWith_iff lit_def)
next
  case (snoc ys y)
  then show ?thesis
    by (cases ys rule: rev_cases) (auto simp: endsWith_iff lit_def butlast_append)
qed

lemma slice_butlast: "slice_0_minus1 s = butlast s"
  by (simp add: slice_0_minus1_def butlast_conv_take)

lemma normalizeUrl_nonempty:
  "raw \<noteq> [] \<Longrightarrow>
   normalizeUrl raw =
     (if startsWith raw (lit ''http://'') \<or> startsWith raw (lit ''https://'') then []
      else lit ''https://'') @
     (if endsWith raw (lit ''/'') then slice_0_minus1 raw else raw)"
  by (simp add: normalizeUrl_def Let_def endsWith_slash slice_butlast butlast_append)

lemma trim_blank: "\<forall>c\<in>set s. is_js_space c \<Longrightarrow> trim s = []"
  by (auto simp: trim_def dest: set_dropWhileD)

subsection \<open>The probe\<close>

lemma checkPath_cases:
  "(\<exists>r. checkPath b p outcome now = Inr r \<and> path r = p \<and> url r = b @ lit ''/'' @ p \<and>
        (found r \<longleftrightarrow> outcome = Resolved)) \<or>
   (\<exists>e. checkPath b p outcome now = Inl e \<and> outcome = Rejected e \<and>
        name e = lit ''AbortError'')"
  by (cases outcome) (simp_all add: checkPath_def)

lemma after_checkPath_Inr:
  "after_checkPath W s k i (Inr r) =
     upd_frame k
       (\<lambda>f. f\<lparr>currentStats :=
                 (if found r
                  then (currentStats (frames s ! k))
                         \<lparr>s_found := s_found (currentStats (frames s ! k)) + 1\<rparr>
                  else (currentStats (frames s ! k))
                         \<lparr>s_notFound := s_notFound (currentStats (frames s ! k)) + 1\<rparr>),
               pc := AwaitDelay i\<rparr>)
       (s\<lparr>results := r # results s,
          stats :=
            (if found r
             then (currentStats (frames s ! k))
                    \<lparr>s_found := s_found (currentStats (frames s ! k)) + 1\<rparr>
             else (currentStats (frames s ! k))
                    \<lparr>s_notFound := s_notFound (currentStats (frames s ! k)) + 1\<rparr>),
          progress := (of_nat (i + 1) / of_nat (length W)) * 100\<rparr>)"
  by (simp add: after_checkPath_def Let_def)

lemma after_checkPath_abort:
  "name e = lit ''AbortError'' \<Longrightarrow> after_checkPath W s k i (Inl e) = finish s k"
  by (simp add: after_checkPath_def)

subsection \<open>Invariants of a scan\<close>

lemmas ctl_defs = loop_head_def call_checkPath_def finish_def upd_frame_def signal_aborted_def
  aborted_def

lemmas run_defs = run_def scan_def startScan_def on_event_def ctl_defs stopScan_def
  togglePause_def after_checkPath_def checkPath_def Let_def candidate_def initial_def
  reject_aborted_def zero_stats_def trim_def is_js_space_def normalizeUrl_def startsWith_def
  endsWith_def slice_0_minus1_def abort_error_def

lemma foldl_invariant:
  "P s \<Longrightarrow> (\<And>t x. x \<in> set xs \<Longrightarrow> P t \<Longrightarrow> P (f t x)) \<Longrightarrow> P (foldl f s xs)"
  by (induction xs arbitrary: s) auto

lemma reject_returned:
  "(\<forall>j<m. pc (frames s ! j) = Returned) \<Longrightarrow> foldl (reject_aborted W now) s [0..<m] = s"
  by (induction m) (simp_all add: reject_aborted_def)

lemma stop_solo:
  assumes "solo n s"
  shows "foldl (reject_aborted W now) (stopScan s) [0..<length (frames s)] =
         reject_aborted W now (stopScan s) n"
proof -
  from assms have l: "length (frames s) = Suc n" and r: "\<forall>j<n. pc (frames (stopScan s) ! j) = Returned"
    by (simp_all add: solo_def stopScan_def)
  from reject_returned[OF r, of W now] l show ?thesis by simp
qed

lemma other_frame:
  assumes "solo n s" and "k \<noteq> n"
  shows "on_event W s (FetchSettled k outcome) now = s"
    and "on_event W s (TimerFired k) now = s"
    and "on_event W s (IntervalTick k) now = s"
proof -
  from assms have "k < n \<or> \<not> k < length (frames s)" by (auto simp: solo_def)
  moreover from assms have "k < n \<Longrightarrow> pc (frames s ! k) = Returned" by (simp add: solo_def)
  ultimately show "on_event W s (FetchSettled k outcome) now = s"
    and "on_event W s (TimerFired k) now = s"
    and "on_event W s (IntervalTick k) now = s"
    by (auto simp: on_event_def)
qed

lemma solo_start:
  assumes "quiet s" and "trim (targetUrl s) \<noteq> []"
  shows "solo (length (frames s)) (snd (startScan W s))"
  using assms by (auto simp: quiet_def startScan_def solo_def ctl_defs nth_append)

lemma in_order_start:
  assumes "quiet s" and "trim (targetUrl s) \<noteq> []"
  shows "in_order W (length (frames s)) (snd (startScan W s))"
  using assms by (cases W) (auto simp: quiet_def startScan_def solo_def in_order_def ctl_defs nth_append)

lemma solo_step:
  assumes "solo n s" and "ev \<noteq> StartClicked"
  shows "solo n (on_event W s ev now)"
proof (cases ev)
  case StartClicked
  with assms show ?thesis by simp
next
  case (TargetTyped v)
  with assms show ?thesis
    by (auto simp: on_event_def solo_def signal_aborted_def aborted_def split: control.splits)
next
  case StopClicked
  show ?thesis
  proof (cases "isScanning s")
    case False
    with assms StopClicked show ?thesis by (simp add: on_event_def)
  next
    case True
    with StopClicked have "on_event W s ev now = reject_aborted W now (stopScan s) n"
      by (simp add: on_event_def stop_solo[OF assms(1)])
    with assms(1) show ?thesis
      by (cases "pc (frames s ! n)")
        (auto simp: reject_aborted_def stopScan_def solo_def ctl_defs checkPath_def
          abort_error_def after_checkPath_def nth_list_update)
  qed
next
  case PauseClicked
  with assms show ?thesis
    by (auto simp: on_event_def solo_def togglePause_def signal_aborted_def aborted_def
        split: control.splits)
next
  case (FetchSettled k outcome)
  show ?thesis
  proof (cases "k = n")
    case False
    with assms FetchSettled show ?thesis by (simp add: other_frame)
  next
    case True
    show ?thesis
    proof (cases "pc (frames s ! n)")
      case (AwaitFetch i sig)
      from checkPath_cases[of "baseUrl (frames s ! n)" "candidate W i" outcome now]
      show ?thesis using assms FetchSettled True AwaitFetch
        by (auto simp: on_event_def after_checkPath_Inr after_checkPath_abort solo_def ctl_defs)
    qed (use assms FetchSettled True in \<open>auto simp: on_event_def\<close>)
  qed
next
  case (TimerFired k)
  show ?thesis
  proof (cases "k = n")
    case False
    with assms TimerFired show ?thesis by (simp add: other_frame)
  next
    case True
    with assms TimerFired show ?thesis
      by (cases "pc (frames s ! n)") (auto simp: on_event_def solo_def ctl_defs)
  qed
next
  case (IntervalTick k)
  show ?thesis
  proof (cases "k = n")
    case False
    with assms IntervalTick show ?thesis by (simp add: other_frame)
  next
    case True
    with assms IntervalTick show ?thesis
      by (cases "pc (frames s ! n)") (auto simp: on_event_def solo_def ctl_defs)
  qed
qed


lemma run_append: "run W s (evs @ evs') = run W (run W s evs) evs'"
  by (simp add: run_def)

lemma run_invariant:
  assumes "P s" and "\<And>t ev now. (ev, now) \<in> set evs \<Longrightarrow> P t \<Longrightarrow> P (on_event W t ev now)"
  shows "P (run W s evs)"
  unfolding run_def
proof (rule foldl_invariant)
  show "P s" by fact
next
  fix t x assume "x \<in> set evs" "P t"
  with assms(2)[of "fst x" "snd x" t] show "P (case x of (ev, now) \<Rightarrow> on_event W t ev now)"
    by (cases x) simp
qed

lemma solo_scan:
  assumes "quiet s" and "trim (targetUrl s) \<noteq> []" and "\<forall>x\<in>set evs. fst x \<noteq> StartClicked"
  shows "solo (length (frames s)) (scan W s evs)"
  unfolding scan_def
proof (rule run_invariant)
  show "solo (length (frames s)) (snd (startScan W s))" using assms(1,2) by (rule solo_start)
next
  fix t ev now assume "(ev, now) \<in> set evs" and t: "solo (length (frames s)) t"
  with assms(3) have "ev \<noteq> StartClicked" by force
  with t show "solo (length (frames s)) (on_event W t ev now)" by (rule solo_step)
qed

lemma in_order_step:
  assumes "in_order W n s" and "\<not> cancels ev" and "ev \<noteq> StartClicked"
  shows "in_order W n (on_event W s ev now)"
proof -
  from assms(1) have solo: "solo n s" by (simp add: in_order_def)
  show ?thesis
  proof (cases ev)
    case StartClicked
    with assms show ?thesis by simp
  next
    case (TargetTyped v)
    with assms show ?thesis
      by (auto simp: on_event_def in_order_def solo_def signal_aborted_def aborted_def
          split: control.splits)
  next
    case StopClicked
    with assms show ?thesis by simp
  next
    case PauseClicked
    with assms show ?thesis
      by (auto simp: on_event_def in_order_def solo_def togglePause_def signal_aborted_def
          aborted_def split: control.splits)
  next
    case (FetchSettled k outcome)
    show ?thesis
    proof (cases "k = n")
      case False
      with assms solo FetchSettled show ?thesis by (simp add: other_frame)
    next
      case True
      show ?thesis
      proof (cases "pc (frames s ! n)")
        case (AwaitFetch i sig)
        from assms FetchSettled
        have "\<forall>e. outcome = Rejected e \<longrightarrow> name e \<noteq> lit ''AbortError''"
          by auto
        with checkPath_cases[of "baseUrl (frames s ! n)" "candidate W i" outcome now]
        obtain r where r: "checkPath (baseUrl (frames s ! n)) (candidate W i) outcome now = Inr r"
            "path r = candidate W i"
          by auto
        from assms(1) AwaitFetch have i: "i < length W" "map path (results s) = rev (take i W)"
          by (simp_all add: in_order_def)
        from assms(1) have "length (frames s) = Suc n" "\<not> signal_aborted s" "solo n s"
          by (simp_all add: in_order_def solo_def)
        then show ?thesis using FetchSettled True AwaitFetch r i
          by (auto simp: on_event_def after_checkPath_Inr in_order_def solo_def candidate_def
              take_Suc_conv_app_nth ctl_defs)
      qed (use assms FetchSettled True in \<open>auto simp: on_event_def solo_def in_order_def\<close>)
    qed
  next
    case (TimerFired k)
    show ?thesis
    proof (cases "k = n")
      case False
      with assms solo TimerFired show ?thesis by (simp add: other_frame)
    next
      case True
      with assms TimerFired show ?thesis
        by (cases "pc (frames s ! n)") (auto simp: on_event_def in_order_def solo_def ctl_defs)
    qed
  next
    case (IntervalTick k)
    show ?thesis
    proof (cases "k = n")
      case False
      with assms solo IntervalTick show ?thesis by (simp add: other_frame)
    next
      case True
      with assms IntervalTick show ?thesis
        by (cases "pc (frames s ! n)") (auto simp: on_event_def in_order_def solo_def ctl_defs)
    qed
  qed
qed

lemma in_order_scan:
  assumes "quiet s" and "trim (targetUrl s) \<noteq> []"
    and "\<forall>x\<in>set evs. \<not> cancels (fst x) \<and> fst x \<noteq> StartClicked"
  shows "in_order W (length (frames s)) (scan W s evs)"
  unfolding scan_def
proof (rule run_invariant)
  show "in_order W (length (frames s)) (snd (startScan W s))"
    using assms(1,2) by (rule in_order_start)
next
  fix t ev now assume "(ev, now) \<in> set evs" and t: "in_order W (length (frames s)) t"
  with assms(3) have "\<not> cancels ev" "ev \<noteq> StartClicked" by force+
  with t show "in_order W (length (frames s)) (on_event W t ev now)" by (rule in_order_step)
qed

lemma stop_stops:
  assumes "solo n s" and "isScanning s"
  shows "stopped n (on_event W s StopClicked now)"
    and "results (on_event W s StopClicked now) = results s"
    and "pc (frames s ! n) = AwaitDelay i \<Longrightarrow>
         pc (frames (on_event W s StopClicked now) ! n) = AwaitDelay i"
proof -
  from assms have e: "on_event W s StopClicked now = reject_aborted W now (stopScan s) n"
    by (simp add: on_event_def stop_solo)
  from solo_step[OF assms(1), of StopClicked W now] have "solo n (on_event W s StopClicked now)"
    by simp
  moreover from assms(1) e have "\<not> isScanning (on_event W s StopClicked now)"
      "signal_aborted (on_event W s StopClicked now)"
    by (auto simp: reject_aborted_def stopScan_def solo_def ctl_defs checkPath_def
        abort_error_def after_checkPath_def split: control.splits)
  ultimately show "stopped n (on_event W s StopClicked now)" by (simp add: stopped_def)
  from assms(1) e show "results (on_event W s StopClicked now) = results s"
    by (auto simp: reject_aborted_def stopScan_def solo_def ctl_defs checkPath_def
        abort_error_def after_checkPath_def split: control.splits)
  from e show "pc (frames s ! n) = AwaitDelay i \<Longrightarrow>
      pc (frames (on_event W s StopClicked now) ! n) = AwaitDelay i"
    by (simp add: reject_aborted_def stopScan_def)
qed

lemma stopped_step:
  assumes "stopped n s" and "ev \<noteq> StartClicked"
  shows "stopped n (on_event W s ev now)"
    and "results (on_event W s ev now) = results s"
    and "ev \<noteq> TimerFired n \<Longrightarrow> pc (frames s ! n) = AwaitDelay i \<Longrightarrow>
         pc (frames (on_event W s ev now) ! n) = AwaitDelay i"
proof -
  from assms(1) have solo: "solo n s" by (simp add: stopped_def)
  from solo_step[OF solo assms(2)] have solo': "solo n (on_event W s ev now)" .
  have "\<not> isScanning (on_event W s ev now) \<and> signal_aborted (on_event W s ev now) \<and>
      results (on_event W s ev now) = results s \<and>
      (ev \<noteq> TimerFired n \<longrightarrow> pc (frames s ! n) = AwaitDelay i \<longrightarrow>
         pc (frames (on_event W s ev now) ! n) = AwaitDelay i)"
  proof (cases ev)
    case StartClicked
    with assms show ?thesis by simp
  next
    case (TargetTyped v)
    with assms show ?thesis
      by (auto simp: on_event_def stopped_def signal_aborted_def aborted_def split: option.splits)
  next
    case StopClicked
    with assms show ?thesis by (auto simp: on_event_def stopped_def)
  next
    case PauseClicked
    with assms show ?thesis by (auto simp: on_event_def stopped_def)
  next
    case (FetchSettled k outcome)
    show ?thesis
    proof (cases "k = n")
      case False
      with assms solo FetchSettled show ?thesis by (simp add: other_frame stopped_def)
    next
      case True
      with assms FetchSettled show ?thesis
        by (cases "pc (frames s ! n)") (auto simp: on_event_def stopped_def solo_def)
    qed
  next
    case (TimerFired k)
    show ?thesis
    proof (cases "k = n")
      case False
      with assms solo TimerFired show ?thesis by (simp add: other_frame stopped_def)
    next
      case True
      with assms TimerFired show ?thesis
        by (cases "pc (frames s ! n)") (auto simp: on_event_def stopped_def solo_def ctl_defs)
    qed
  next
    case (IntervalTick k)
    show ?thesis
    proof (cases "k = n")
      case False
      with assms solo IntervalTick show ?thesis by (simp add: other_frame stopped_def)
    next
      case True
      with assms IntervalTick show ?thesis
        by (cases "pc (frames s ! n)") (auto simp: on_event_def stopped_def solo_def ctl_defs)
    qed
  qed
  with solo' show "stopped n (on_event W s ev now)"
    and "results (on_event W s ev now) = results s"
    and "ev \<noteq> TimerFired n \<Longrightarrow> pc (frames s ! n) = AwaitDelay i \<Longrightarrow>
         pc (frames (on_event W s ev now) ! n) = AwaitDelay i"
    by (simp_all add: stopped_def)
qed

lemma stopped_timer:
  assumes "stopped n s" and "pc (frames s ! n) = AwaitDelay i"
  shows "pc (frames (on_event W s (TimerFired n) now) ! n) = Returned"
  using assms by (auto simp: on_event_def stopped_def solo_def ctl_defs)

text \<open>
  An invocation that waits in its delay leaves it only when the timer of that delay
  fires, whatever other events occur and however many invocations are live.
\<close>

lemma pc_other_frame:
  "k \<noteq> n \<Longrightarrow> n < length (frames s) \<Longrightarrow> pc (frames s ! n) = c \<Longrightarrow>
   n < length (frames (finish s k)) \<and> pc (frames (finish s k) ! n) = c \<and>
   n < length (frames (call_checkPath s k i)) \<and> pc (frames (call_checkPath s k i) ! n) = c \<and>
   n < length (frames (loop_head W s k i)) \<and> pc (frames (loop_head W s k i) ! n) = c"
  by (simp add: ctl_defs)

lemma pc_other_frame_after:
  assumes "k \<noteq> n" and "n < length (frames s)" and "pc (frames s ! n) = c"
  shows "n < length (frames (after_checkPath W s k i (checkPath b p outcome now))) \<and>
         pc (frames (after_checkPath W s k i (checkPath b p outcome now)) ! n) = c"
  using checkPath_cases[of b p outcome now] assms
  by (auto simp: after_checkPath_Inr after_checkPath_abort ctl_defs)

lemma pc_reject_aborted:
  assumes "n < length (frames s)" and "pc (frames s ! n) = AwaitDelay i"
  shows "n < length (frames (reject_aborted W now s k)) \<and>
         pc (frames (reject_aborted W now s k) ! n) = AwaitDelay i"
proof (cases "k = n")
  case True
  with assms show ?thesis by (simp add: reject_aborted_def)
next
  case False
  with assms pc_other_frame_after[OF False assms, of W]
  show ?thesis by (auto simp: reject_aborted_def split: control.splits)
qed

lemma delay_waits:
  assumes "n < length (frames s)" and "pc (frames s ! n) = AwaitDelay i" and "ev \<noteq> TimerFired n"
  shows "n < length (frames (on_event W s ev now)) \<and>
         pc (frames (on_event W s ev now) ! n) = AwaitDelay i"
proof (cases ev)
  case StartClicked
  with assms show ?thesis
    by (auto simp: on_event_def startScan_def ctl_defs nth_append)
next
  case (TargetTyped v)
  with assms show ?thesis by (simp add: on_event_def)
next
  case StopClicked
  have "n < length (frames (foldl (reject_aborted W now) (stopScan s) ks)) \<and>
      pc (frames (foldl (reject_aborted W now) (stopScan s) ks) ! n) = AwaitDelay i" for ks
  proof (rule foldl_invariant)
    from assms show "n < length (frames (stopScan s)) \<and> pc (frames (stopScan s) ! n) = AwaitDelay i"
      by (simp add: stopScan_def)
  next
    fix t :: fuzzer and k assume "n < length (frames t) \<and> pc (frames t ! n) = AwaitDelay i"
    then show "n < length (frames (reject_aborted W now t k)) \<and>
        pc (frames (reject_aborted W now t k) ! n) = AwaitDelay i"
      by (simp add: pc_reject_aborted)
  qed
  with assms StopClicked show ?thesis by (simp add: on_event_def)
next
  case PauseClicked
  with assms show ?thesis by (simp add: on_event_def togglePause_def)
next
  case (FetchSettled k outcome)
  show ?thesis
  proof (cases "k = n")
    case True
    with assms FetchSettled show ?thesis by (simp add: on_event_def)
  next
    case False
    from pc_other_frame_after[OF False assms(1,2), of W] assms FetchSettled
    show ?thesis by (auto simp: on_event_def split: control.splits)
  qed
next
  case (TimerFired k)
  with assms have False: "k \<noteq> n" by simp
  from pc_other_frame[OF False assms(1,2)] assms TimerFired
  show ?thesis by (auto simp: on_event_def split: control.splits)
next
  case (IntervalTick k)
  show ?thesis
  proof (cases "k = n")
    case True
    with assms IntervalTick show ?thesis by (simp add: on_event_def)
  next
    case False
    from pc_other_frame[OF False assms(1,2)] assms IntervalTick
    show ?thesis by (auto simp: on_event_def split: control.splits)
  qed
qed

lemma delay_waits_run:
  assumes "n < length (frames s)" and "pc (frames s ! n) = AwaitDelay i"
    and "\<forall>x\<in>set evs. fst x \<noteq> TimerFired n"
  shows "pc (frames (run W s evs) ! n) = AwaitDelay i"
proof -
  have "n < length (frames (run W s evs)) \<and> pc (frames (run W s evs) ! n) = AwaitDelay i"
  proof (rule run_invariant)
    from assms show "n < length (frames s) \<and> pc (frames s ! n) = AwaitDelay i" by simp
  next
    fix t :: fuzzer and ev now assume "(ev, now) \<in> set evs"
      and t: "n < length (frames t) \<and> pc (frames t ! n) = AwaitDelay i"
    with assms(3) have "ev \<noteq> TimerFired n" by force
    with t show "n < length (frames (on_event W t ev now)) \<and>
        pc (frames (on_event W t ev now) ! n) = AwaitDelay i"
      by (simp add: delay_waits)
  qed
  then show ?thesis by simp
qed

text \<open>
  Two facts about a scan that is started while no earlier invocation is suspended and
  that no further click on Start follows: its statistics count its results at every
  point, and after a click on Stop its results stay as they are.
\<close>

lemma counted_start:
  assumes "quiet s" and "trim (targetUrl s) \<noteq> []"
  shows "counted (length (frames s)) (snd (startScan W s))"
proof -
  from assms have "solo (length (frames s)) (snd (startScan W s))" by (rule solo_start)
  moreover from assms(2)
  have "stats (snd (startScan W s)) = currentStats (frames (snd (startScan W s)) ! length (frames s))"
      "total (stats (snd (startScan W s))) = length (results (snd (startScan W s)))"
    by (auto simp: startScan_def ctl_defs total_def zero_stats_def)
  ultimately show ?thesis by (auto simp: counted_def)
qed

lemma counted_step:
  assumes "counted n s" and "ev \<noteq> StartClicked"
  shows "counted n (on_event W s ev now)"
proof -
  from assms(1) have solo: "solo n s" by (simp add: counted_def)
  from solo_step[OF solo assms(2)] have solo': "solo n (on_event W s ev now)" .
  have "stats (on_event W s ev now) = currentStats (frames (on_event W s ev now) ! n) \<and>
      total (stats (on_event W s ev now)) = length (results (on_event W s ev now))"
  proof (cases ev)
    case StartClicked
    with assms show ?thesis by simp
  next
    case (TargetTyped v)
    with assms show ?thesis by (auto simp: on_event_def counted_def)
  next
    case StopClicked
    show ?thesis
    proof (cases "isScanning s")
      case False
      with assms StopClicked show ?thesis by (auto simp: on_event_def counted_def)
    next
      case True
      with StopClicked have "on_event W s ev now = reject_aborted W now (stopScan s) n"
        by (simp add: on_event_def stop_solo[OF solo])
      with assms(1) show ?thesis
        by (cases "pc (frames s ! n)")
          (auto simp: reject_aborted_def stopScan_def counted_def solo_def ctl_defs checkPath_def
            abort_error_def after_checkPath_def)
    qed
  next
    case PauseClicked
    with assms show ?thesis by (auto simp: on_event_def counted_def togglePause_def)
  next
    case (FetchSettled k outcome)
    show ?thesis
    proof (cases "k = n")
      case False
      with assms solo FetchSettled show ?thesis by (auto simp: other_frame counted_def)
    next
      case True
      show ?thesis
      proof (cases "pc (frames s ! n)")
        case (AwaitFetch i sig)
        from checkPath_cases[of "baseUrl (frames s ! n)" "candidate W i" outcome now]
        show ?thesis using assms FetchSettled True AwaitFetch
          by (auto simp: on_event_def after_checkPath_Inr after_checkPath_abort counted_def
              solo_def total_def ctl_defs)
      qed (use assms FetchSettled True in \<open>auto simp: on_event_def counted_def\<close>)
    qed
  next
    case (TimerFired k)
    show ?thesis
    proof (cases "k = n")
      case False
      with assms solo TimerFired show ?thesis by (auto simp: other_frame counted_def)
    next
      case True
      with assms TimerFired show ?thesis
        by (cases "pc (frames s ! n)") (auto simp: on_event_def counted_def solo_def ctl_defs)
    qed
  next
    case (IntervalTick k)
    show ?thesis
    proof (cases "k = n")
      case False
      with assms solo IntervalTick show ?thesis by (auto simp: other_frame counted_def)
    next
      case True
      with assms IntervalTick show ?thesis
        by (cases "pc (frames s ! n)") (auto simp: on_event_def counted_def solo_def ctl_defs)
    qed
  qed
  with solo' show ?thesis by (auto simp: counted_def)
qed

lemma stats_count_results_solo:
  assumes "quiet s" and "trim (targetUrl s) \<noteq> []" and "\<forall>x\<in>set evs. fst x \<noteq> StartClicked"
  shows "s_found (stats (scan W s evs)) + s_notFound (stats (scan W s evs)) +
           s_errors (stats (scan W s evs)) = length (results (scan W s evs))"
proof -
  have "counted (length (frames s)) (scan W s evs)"
    unfolding scan_def
  proof (rule run_invariant)
    show "counted (length (frames s)) (snd (startScan W s))"
      using assms(1,2) by (rule counted_start)
  next
    fix t ev now assume "(ev, now) \<in> set evs" and t: "counted (length (frames s)) t"
    with assms(3) have "ev \<noteq> StartClicked" by force
    with t show "counted (length (frames s)) (on_event W t ev now)" by (rule counted_step)
  qed
  then show ?thesis by (auto simp: counted_def total_def)
qed

lemma stop_keeps_results_solo:
  assumes "quiet s" and "trim (targetUrl s) \<noteq> []" and "\<forall>x\<in>set evs. fst x \<noteq> StartClicked"
    and "isScanning (scan W s evs)" and "\<forall>x\<in>set evs'. fst x \<noteq> StartClicked"
  shows "results (run W (on_event W (scan W s evs) StopClicked now) evs') =
           results (scan W s evs) \<and>
         \<not> isScanning (run W (on_event W (scan W s evs) StopClicked now) evs')"
proof -
  let ?n = "length (frames s)"
  let ?t = "on_event W (scan W s evs) StopClicked now"
  from assms(1,2,3) have solo: "solo ?n (scan W s evs)" by (rule solo_scan)
  note st = stop_stops[OF solo assms(4), where W = W and now = now]
  have "stopped ?n (run W ?t evs') \<and> results (run W ?t evs') = results (scan W s evs)"
  proof (rule run_invariant)
    from st(1,2) show "stopped ?n ?t \<and> results ?t = results (scan W s evs)" by simp
  next
    fix t ev now2
    assume e: "(ev, now2) \<in> set evs'"
      and t: "stopped ?n t \<and> results t = results (scan W s evs)"
    from assms(5) e have ne: "ev \<noteq> StartClicked" by force
    from t have s1: "stopped ?n t" by simp
    from stopped_step(1)[OF s1 ne, where W = W and now = now2]
      stopped_step(2)[OF s1 ne, where W = W and now = now2] t
    show "stopped ?n (on_event W t ev now2) \<and>
          results (on_event W t ev now2) = results (scan W s evs)"
      by simp
  qed
  then show ?thesis by (simp add: stopped_def)
qed


text \<open>
  A scan completes when each probe gets a response and each delay runs out: for every
  wordlist there is a run of events after which \<open>startScan\<close> has returned.
\<close>

lemma replicate_rounds_Suc: "concat (replicate (Suc m) r) = concat (replicate m r) @ r"
  by (induction m) simp_all

lemma one_round:
  assumes "length (frames t) = Suc n" and "\<not> signal_aborted t"
    and "\<not> closurePaused (frames t ! n)" and "pc (frames t ! n) = AwaitFetch m sig"
  shows "\<not> closurePaused (frames (on_event W (on_event W t (FetchSettled n Resolved) now)
            (TimerFired n) now) ! n) \<and>
         (\<exists>sig. pc (frames (on_event W (on_event W t (FetchSettled n Resolved) now)
            (TimerFired n) now) ! n) =
           (if Suc m < length W then AwaitFetch (Suc m) sig else Returned))"
  using assms
  by (auto simp: on_event_def checkPath_def after_checkPath_def Let_def ctl_defs
      split: option.splits)

lemma scan_rounds:
  assumes "quiet s" and "trim (targetUrl s) \<noteq> []" and "\<not> isPaused s"
  shows "m \<le> length W \<Longrightarrow>
         in_order W (length (frames s))
           (scan W s (concat (replicate m
              [(FetchSettled (length (frames s)) Resolved, now),
               (TimerFired (length (frames s)), now)]))) \<and>
         \<not> closurePaused (frames (scan W s (concat (replicate m
              [(FetchSettled (length (frames s)) Resolved, now),
               (TimerFired (length (frames s)), now)]))) ! length (frames s)) \<and>
         (\<exists>sig. pc (frames (scan W s (concat (replicate m
              [(FetchSettled (length (frames s)) Resolved, now),
               (TimerFired (length (frames s)), now)]))) ! length (frames s)) =
           (if m < length W then AwaitFetch m sig else Returned))"
proof (induction m)
  case 0
  from assms in_order_start[OF assms(1,2), of W] show ?case
    by (auto simp: scan_def run_def startScan_def ctl_defs)
next
  case (Suc m)
  let ?n = "length (frames s)"
  let ?t = "scan W s (concat (replicate m
      [(FetchSettled ?n Resolved, now), (TimerFired ?n, now)]))"
  from Suc obtain sig where t: "in_order W ?n ?t" "\<not> closurePaused (frames ?t ! ?n)"
      "pc (frames ?t ! ?n) = AwaitFetch m sig"
    by auto
  have e: "scan W s (concat (replicate (Suc m)
      [(FetchSettled ?n Resolved, now), (TimerFired ?n, now)])) =
      on_event W (on_event W ?t (FetchSettled ?n Resolved) now) (TimerFired ?n) now"
    by (simp only: replicate_rounds_Suc scan_def run_append) (simp add: run_def)
  from t(1) have io: "in_order W ?n (on_event W (on_event W ?t (FetchSettled ?n Resolved) now)
      (TimerFired ?n) now)"
    by (simp add: in_order_step)
  from t have l: "length (frames ?t) = Suc ?n" "\<not> signal_aborted ?t"
    by (simp_all add: in_order_def solo_def)
  from one_round[OF l t(2,3), of W now] io show ?case
    by (simp only: e) blast
qed

lemma scan_can_complete:
  assumes "quiet s" and "trim (targetUrl s) \<noteq> []" and "\<not> isPaused s"
  shows "pc (frames (scan W s (concat (replicate (length W)
            [(FetchSettled (length (frames s)) Resolved, now),
             (TimerFired (length (frames s)), now)]))) ! length (frames s)) = Returned"
  using scan_rounds[OF assms, of "length W" W now] by simp


section \<open>The properties\<close>

subsection \<open>Results of a completed scan\<close>

text \<open>
  C1, as stated, fails: a scan that is never stopped and runs to completion yields one
  result for each candidate, but line 98 puts each new result in front of the earlier
  ones, so the result at index 0 belongs to the last candidate. Here the component is
  fresh, the wordlist is \<open>admin\<close>, \<open>login\<close>, both probes get a response, and the results
  list \<open>login\<close> before \<open>admin\<close>.
\<close>

theorem scan_order_counterexample:
  "pc (frames (scan [lit ''admin'', lit ''login''] (initial\<lparr>targetUrl := lit ''example.com''\<rparr>)
         [(FetchSettled 0 Resolved, lit ''t1''), (TimerFired 0, lit ''t1''),
          (FetchSettled 0 Resolved, lit ''t2''), (TimerFired 0, lit ''t2'')]) ! 0) = Returned \<and>
   map path (results (scan [lit ''admin'', lit ''login'']
         (initial\<lparr>targetUrl := lit ''example.com''\<rparr>)
         [(FetchSettled 0 Resolved, lit ''t1''), (TimerFired 0, lit ''t1''),
          (FetchSettled 0 Resolved, lit ''t2''), (TimerFired 0, lit ''t2'')]))
     = [lit ''login'', lit ''admin''] \<and>
   map path (results (scan [lit ''admin'', lit ''login'']
         (initial\<lparr>targetUrl := lit ''example.com''\<rparr>)
         [(FetchSettled 0 Resolved, lit ''t1''), (TimerFired 0, lit ''t1''),
          (FetchSettled 0 Resolved, lit ''t2''), (TimerFired 0, lit ''t2'')]))
     \<noteq> [lit ''admin'', lit ''login'']"
  by (simp add: run_defs lit_def)

text \<open>
  C1, amended: for every wordlist \<open>W\<close>, take a scan that is started on a target that is
  not blank while no earlier invocation of \<open>startScan\<close> is still suspended, whose events
  hold no click on Stop, no \<open>AbortError\<close> and no further click on Start, and whose
  invocation has returned. It has exactly \<open>|W|\<close> results, one for each candidate, in
  reverse wordlist order: the result at index \<open>i\<close> is the one of the candidate at index
  \<open>|W| - 1 - i\<close>. (The events of any invocation may occur, and the invocation of the scan
  is the one with number \<open>length (frames s)\<close>.)
\<close>

theorem scan_completed_results:
  assumes "quiet s"
    and "trim (targetUrl s) \<noteq> []"
    and "\<forall>x\<in>set evs. \<not> cancels (fst x) \<and> fst x \<noteq> StartClicked"
    and "pc (frames (scan W s evs) ! length (frames s)) = Returned"
  shows "length (results (scan W s evs)) = length W \<and>
         map path (results (scan W s evs)) = rev W \<and>
         (\<forall>i<length W. path (results (scan W s evs) ! i) = W ! (length W - 1 - i))"
proof -
  from in_order_scan[OF assms(1,2,3), of W] assms(4)
  have m: "map path (results (scan W s evs)) = rev W"
    by (simp add: in_order_def)
  then have "length (map path (results (scan W s evs))) = length (rev W)"
    by simp
  then have l: "length (results (scan W s evs)) = length W"
    by simp
  have "path (results (scan W s evs) ! i) = W ! (length W - 1 - i)" if "i < length W" for i
  proof -
    from that l have "path (results (scan W s evs) ! i) = map path (results (scan W s evs)) ! i"
      by simp
    also have "\<dots> = rev W ! i" by (simp only: m)
    also from that have "\<dots> = W ! (length W - 1 - i)" by (simp add: rev_nth)
    finally show ?thesis .
  qed
  with m l show ?thesis by blast
qed

theorem scan_completed_results_witness:
  "trim (lit ''example.com'') \<noteq> [] \<and>
   length (results (scan [lit ''admin'', lit ''login'']
         (initial\<lparr>targetUrl := lit ''example.com''\<rparr>)
         [(FetchSettled 0 Resolved, lit ''t1''), (TimerFired 0, lit ''t1''),
          (FetchSettled 0 Resolved, lit ''t2''), (TimerFired 0, lit ''t2'')])) = 2 \<and>
   path (results (scan [lit ''admin'', lit ''login'']
         (initial\<lparr>targetUrl := lit ''example.com''\<rparr>)
         [(FetchSettled 0 Resolved, lit ''t1''), (TimerFired 0, lit ''t1''),
          (FetchSettled 0 Resolved, lit ''t2''), (TimerFired 0, lit ''t2'')]) ! 1) = lit ''admin''"
  using scan_completed_results
    [of "initial\<lparr>targetUrl := lit ''example.com''\<rparr>"
        "[(FetchSettled 0 Resolved, lit ''t1''), (TimerFired 0, lit ''t1''),
          (FetchSettled 0 Resolved, lit ''t2''), (TimerFired 0, lit ''t2'')]"
        "[lit ''admin'', lit ''login'']"]
  by (simp add: run_defs quiet_def lit_def)

subsection \<open>Statistics and results\<close>

text \<open>
  C2 at a failing input. The component is fresh, the wordlist is \<open>admin\<close>, \<open>login\<close>. The
  user types the target and clicks Start; the probe of \<open>admin\<close> gets a response; during
  the delay that follows the user clicks Stop and then Start again. The first invocation
  is still suspended in its delay. When its timer fires, line 83 reads the controller of
  the second scan, which is not aborted, so the first invocation probes \<open>login\<close>; when
  that probe gets a response it puts its result into the list of the second scan and
  publishes its own \<open>currentStats\<close>. The statistics then count 2 and the list holds 1
  result.
\<close>

theorem stats_exceed_results_after_restart:
  "stats (run [lit ''admin'', lit ''login''] initial
      [(TargetTyped (lit ''example.com''), lit ''t0''), (StartClicked, lit ''t0''),
       (FetchSettled 0 Resolved, lit ''t1''), (StopClicked, lit ''t2''),
       (StartClicked, lit ''t3''), (TimerFired 0, lit ''t4''),
       (FetchSettled 0 Resolved, lit ''t5'')])
     = \<lparr>s_found = 2, s_notFound = 0, s_errors = 0\<rparr> \<and>
   map path (results (run [lit ''admin'', lit ''login''] initial
      [(TargetTyped (lit ''example.com''), lit ''t0''), (StartClicked, lit ''t0''),
       (FetchSettled 0 Resolved, lit ''t1''), (StopClicked, lit ''t2''),
       (StartClicked, lit ''t3''), (TimerFired 0, lit ''t4''),
       (FetchSettled 0 Resolved, lit ''t5'')]))
     = [lit ''login'']"
  by (simp add: run_defs lit_def)

subsection \<open>A probe whose status cannot be read\<close>

text \<open>
  C3, as stated, fails: when the \<^verbatim>\<open>fetch\<close> resolves, with the opaque response whose
  status the code cannot read, \<open>checkPath\<close> returns a result that is flagged as found.
\<close>

theorem checkPath_opaque_counterexample:
  "checkPath (lit ''https://example.com'') (lit ''admin'') Resolved (lit ''t1'') =
     Inr \<lparr>path = lit ''admin'', url = lit ''https://example.com/admin'',
          status = lit ''Unknown (CORS)'', found = True, timestamp = lit ''t1''\<rparr>"
  by (simp add: checkPath_def lit_def)

text \<open>
  C3, amended: for every probe whose HTTP status cannot be observed, the result carries
  the status label \<open>Unknown (CORS)\<close> that marks the degraded mode, and it is flagged as
  found and counted in the \<open>found\<close> statistic; the code has no other way to flag a result
  as found, since a result of a \<^verbatim>\<open>fetch\<close> that rejects is flagged as not found.
\<close>

theorem checkPath_opaque_result:
  "checkPath base p Resolved now =
     Inr \<lparr>path = p, url = base @ lit ''/'' @ p, status = lit ''Unknown (CORS)'',
          found = True, timestamp = now\<rparr> \<and>
   s_found (stats (after_checkPath W s k i (checkPath base p Resolved now))) =
     s_found (currentStats (frames s ! k)) + 1 \<and>
   (case checkPath base p (Rejected e) now of Inr r \<Rightarrow> found r = False | Inl x \<Rightarrow> True)"
  by (simp add: checkPath_def after_checkPath_def upd_frame_def Let_def)

subsection \<open>Stopping a scan\<close>

text \<open>
  C4 at a failing input, the run of C2. Stop is clicked when the scan has handled one
  candidate and has 1 result. The stopped invocation stays suspended in its delay; the
  second click on Start replaces the controller in the ref; when the timer of the
  stopped invocation fires, it passes the test of line 83 and issues the probe of
  \<open>login\<close>, and when that probe gets a response it emits a further result, while the
  invocation of the second scan still waits for its first probe.
\<close>

theorem stopped_scan_emits_after_restart:
  "map path (results (run [lit ''admin'', lit ''login''] initial
      [(TargetTyped (lit ''example.com''), lit ''t0''), (StartClicked, lit ''t0''),
       (FetchSettled 0 Resolved, lit ''t1''), (StopClicked, lit ''t2'')]))
     = [lit ''admin''] \<and>
   pc (frames (run [lit ''admin'', lit ''login''] initial
      [(TargetTyped (lit ''example.com''), lit ''t0''), (StartClicked, lit ''t0''),
       (FetchSettled 0 Resolved, lit ''t1''), (StopClicked, lit ''t2'')]) ! 0)
     = AwaitDelay 0 \<and>
   pc (frames (run [lit ''admin'', lit ''login''] initial
      [(TargetTyped (lit ''example.com''), lit ''t0''), (StartClicked, lit ''t0''),
       (FetchSettled 0 Resolved, lit ''t1''), (StopClicked, lit ''t2''),
       (StartClicked, lit ''t3''), (TimerFired 0, lit ''t4'')]) ! 0)
     = AwaitFetch 1 (Some 1) \<and>
   pc (frames (run [lit ''admin'', lit ''login''] initial
      [(TargetTyped (lit ''example.com''), lit ''t0''), (StartClicked, lit ''t0''),
       (FetchSettled 0 Resolved, lit ''t1''), (StopClicked, lit ''t2''),
       (StartClicked, lit ''t3''), (TimerFired 0, lit ''t4''),
       (FetchSettled 0 Resolved, lit ''t5'')]) ! 1)
     = AwaitFetch 0 (Some 1) \<and>
   results (run [lit ''admin'', lit ''login''] initial
      [(TargetTyped (lit ''example.com''), lit ''t0''), (StartClicked, lit ''t0''),
       (FetchSettled 0 Resolved, lit ''t1''), (StopClicked, lit ''t2''),
       (StartClicked, lit ''t3''), (TimerFired 0, lit ''t4''),
       (FetchSettled 0 Resolved, lit ''t5'')])
     = [\<lparr>path = lit ''login'', url = lit ''https://example.com/login'',
         status = lit ''Unknown (CORS)'', found = True, timestamp = lit ''t5''\<rparr>]"
  by (simp add: run_defs lit_def)

text \<open>
  C8, as stated, fails: a click on Stop during the delay after a probe does not end the
  wait. Here the first probe has got its response, the invocation waits in the delay of
  line 110, Stop is clicked, and the invocation still waits in that delay.
\<close>

theorem stop_in_delay_counterexample:
  "pc (frames (scan [lit ''admin'', lit ''login''] (initial\<lparr>targetUrl := lit ''example.com''\<rparr>)
         [(FetchSettled 0 Resolved, lit ''t1'')]) ! 0) = AwaitDelay 0 \<and>
   pc (frames (scan [lit ''admin'', lit ''login''] (initial\<lparr>targetUrl := lit ''example.com''\<rparr>)
         [(FetchSettled 0 Resolved, lit ''t1''), (StopClicked, lit ''t2'')]) ! 0) = AwaitDelay 0"
  by (simp add: run_defs lit_def)

text \<open>
  C8, amended. Take a scan that is started on a target that is not blank while no
  earlier invocation is still suspended, with no further click on Start, and let Stop be
  clicked while the scan is active and its invocation is inside the delay between two
  probes. The delay is not aborted: whatever events \<open>evs'\<close> follow, the invocation stays in
  the wait until the timer of that delay fires. If moreover no new scan is started before
  the timer fires, the results stay as they are, and when the timer fires the loop sees
  the aborted signal at the head of its next iteration and \<open>startScan\<close> returns, with no
  new probe and no new result.
\<close>

theorem stop_in_delay:
  assumes "quiet s"
    and "trim (targetUrl s) \<noteq> []"
    and "\<forall>x\<in>set evs. fst x \<noteq> StartClicked"
    and "pc (frames (scan W s evs) ! length (frames s)) = AwaitDelay i"
    and "isScanning (scan W s evs)"
    and "\<forall>x\<in>set evs'. fst x \<noteq> TimerFired (length (frames s))"
  shows "pc (frames (run W (on_event W (scan W s evs) StopClicked now) evs') ! length (frames s))
           = AwaitDelay i \<and>
         ((\<forall>x\<in>set evs'. fst x \<noteq> StartClicked) \<longrightarrow>
            results (run W (on_event W (scan W s evs) StopClicked now) evs')
              = results (scan W s evs) \<and>
            pc (frames (on_event W (run W (on_event W (scan W s evs) StopClicked now) evs')
                  (TimerFired (length (frames s))) now') ! length (frames s)) = Returned \<and>
            results (on_event W (run W (on_event W (scan W s evs) StopClicked now) evs')
                  (TimerFired (length (frames s))) now') = results (scan W s evs))"
proof -
  let ?n = "length (frames s)"
  let ?t = "on_event W (scan W s evs) StopClicked now"
  let ?u = "run W ?t evs'"
  from assms(1,2,3) have solo: "solo ?n (scan W s evs)" by (rule solo_scan)
  note st = stop_stops[OF solo assms(5), where W = W and now = now]
  from st(3)[OF assms(4)] have d: "pc (frames ?t ! ?n) = AwaitDelay i" .
  from st(1) have "?n < length (frames ?t)" by (simp add: stopped_def solo_def)
  from delay_waits_run[OF this d assms(6)] have wait: "pc (frames ?u ! ?n) = AwaitDelay i" .
  have rest: "results ?u = results (scan W s evs) \<and>
      pc (frames (on_event W ?u (TimerFired ?n) now') ! ?n) = Returned \<and>
      results (on_event W ?u (TimerFired ?n) now') = results (scan W s evs)"
    if nostart: "\<forall>x\<in>set evs'. fst x \<noteq> StartClicked"
  proof -
    have "stopped ?n ?u \<and> results ?u = results (scan W s evs)"
    proof (rule run_invariant)
      from st(1,2) show "stopped ?n ?t \<and> results ?t = results (scan W s evs)" by simp
    next
      fix t ev now2
      assume e: "(ev, now2) \<in> set evs'"
        and t: "stopped ?n t \<and> results t = results (scan W s evs)"
      from nostart e have ne: "ev \<noteq> StartClicked" by force
      from t have s1: "stopped ?n t" by simp
      from stopped_step(1)[OF s1 ne, where W = W and now = now2]
        stopped_step(2)[OF s1 ne, where W = W and now = now2] t
      show "stopped ?n (on_event W t ev now2) \<and>
            results (on_event W t ev now2) = results (scan W s evs)"
        by simp
    qed
    then have u: "stopped ?n ?u" "results ?u = results (scan W s evs)"
      by simp_all
    from stopped_timer[OF u(1) wait, where W = W and now = now']
    have "pc (frames (on_event W ?u (TimerFired ?n) now') ! ?n) = Returned" .
    moreover
    from stopped_step(2)[OF u(1), where ev = "TimerFired ?n" and W = W and now = now'] u(2)
    have "results (on_event W ?u (TimerFired ?n) now') = results (scan W s evs)"
      by simp
    ultimately show ?thesis using u(2) by simp
  qed
  from wait rest show ?thesis by blast
qed

theorem stop_in_delay_witness:
  "trim (lit ''example.com'') \<noteq> [] \<and>
   pc (frames (run [lit ''admin'', lit ''login'']
         (on_event [lit ''admin'', lit ''login'']
            (scan [lit ''admin'', lit ''login''] (initial\<lparr>targetUrl := lit ''example.com''\<rparr>)
               [(FetchSettled 0 Resolved, lit ''t1'')])
            StopClicked (lit ''t2''))
         [(TargetTyped (lit ''example.org''), lit ''t3'')]) ! 0) = AwaitDelay 0 \<and>
   pc (frames (on_event [lit ''admin'', lit ''login'']
         (run [lit ''admin'', lit ''login'']
            (on_event [lit ''admin'', lit ''login'']
               (scan [lit ''admin'', lit ''login'']
                  (initial\<lparr>targetUrl := lit ''example.com''\<rparr>)
                  [(FetchSettled 0 Resolved, lit ''t1'')])
               StopClicked (lit ''t2''))
            [(TargetTyped (lit ''example.org''), lit ''t3'')])
         (TimerFired 0) (lit ''t4'')) ! 0) = Returned"
  using stop_in_delay
    [of "initial\<lparr>targetUrl := lit ''example.com''\<rparr>"
        "[(FetchSettled 0 Resolved, lit ''t1'')]" "[lit ''admin'', lit ''login'']" 0
        "[(TargetTyped (lit ''example.org''), lit ''t3'')]" "lit ''t2''" "lit ''t4''"]
  by (simp add: run_defs quiet_def lit_def)

subsection \<open>The target resolver\<close>

text \<open>
  C5: for every raw input that is not empty, \<open>normalizeUrl\<close> puts \<open>https://\<close> in front
  exactly when the input starts with neither \<open>http://\<close> nor \<open>https://\<close>, and removes
  exactly one \<open>/\<close> from the end of the input if the input ends with one; it maps
  \<open>example.com\<close> to \<open>https://example.com\<close> and \<open>http://example.com/\<close> to
  \<open>http://example.com\<close>.
\<close>

theorem normalizeUrl_resolve:
  "(raw \<noteq> [] \<longrightarrow>
      normalizeUrl raw =
        (if startsWith raw (lit ''http://'') \<or> startsWith raw (lit ''https://'') then []
         else lit ''https://'') @
        (if endsWith raw (lit ''/'') then slice_0_minus1 raw else raw)) \<and>
   normalizeUrl (lit ''example.com'') = lit ''https://example.com'' \<and>
   normalizeUrl (lit ''http://example.com/'') = lit ''http://example.com''"
proof -
  have "normalizeUrl (lit ''example.com'') = lit ''https://example.com''"
    by (simp add: normalizeUrl_def lit_def startsWith_def endsWith_def slice_0_minus1_def)
  moreover have "normalizeUrl (lit ''http://example.com/'') = lit ''http://example.com''"
    by (simp add: normalizeUrl_def lit_def startsWith_def endsWith_def slice_0_minus1_def)
  ultimately show ?thesis
    by (simp add: normalizeUrl_nonempty)
qed

theorem normalizeUrl_resolve_witness:
  "lit ''example.org/a/'' \<noteq> [] \<and> normalizeUrl (lit ''example.org/a/'') = lit ''https://example.org/a''"
  using normalizeUrl_resolve [of "lit ''example.org/a/''"]
  by (simp add: lit_def startsWith_def endsWith_def slice_0_minus1_def)

text \<open>
  C9, as stated, fails: \<open>normalizeUrl\<close> removes one \<open>/\<close> only, so an input that ends with
  two of them gives a base URL that ends with \<open>/\<close>.
\<close>

theorem normalizeUrl_trailing_counterexample:
  "lit ''example.com//'' \<noteq> [] \<and>
   normalizeUrl (lit ''example.com//'') = lit ''https://example.com/'' \<and>
   endsWith (normalizeUrl (lit ''example.com//'')) (lit ''/'')"
  by (simp add: normalizeUrl_def lit_def startsWith_def endsWith_def slice_0_minus1_def)

text \<open>
  C9, amended: for every raw input that is not empty, the base URL that \<open>normalizeUrl\<close>
  returns ends with \<open>/\<close> exactly when the input ends with \<open>//\<close> or is the text \<open>/\<close>; for every
  other input that is not empty the base URL has no \<open>/\<close> at its end.
\<close>

theorem normalizeUrl_trailing:
  assumes "raw \<noteq> []"
  shows "endsWith (normalizeUrl raw) (lit ''/'') \<longleftrightarrow>
           endsWith raw (lit ''//'') \<or> raw = lit ''/''"
proof -
  from assms obtain ys y where raw: "raw = ys @ [y]"
    by (cases raw rule: rev_cases) auto
  have short: "startsWith [y] (lit ''http://'') = False"
      "startsWith [y] (lit ''https://'') = False"
    by (simp_all add: startsWith_def lit_def)
  show ?thesis
  proof (cases "ys = []")
    case True
    with raw short show ?thesis
      by (simp add: normalizeUrl_nonempty endsWith_slash endsWith_slash2 slice_butlast)
        (simp add: lit_def)
  next
    case False
    with raw show ?thesis
      by (simp add: normalizeUrl_nonempty endsWith_slash endsWith_slash2 slice_butlast)
        (simp add: lit_def)
  qed
qed

theorem normalizeUrl_trailing_witness:
  "lit ''example.com/'' \<noteq> [] \<and> \<not> endsWith (normalizeUrl (lit ''example.com/'')) (lit ''/'')"
  using normalizeUrl_trailing [of "lit ''example.com/''"]
  by (simp add: lit_def endsWith_def)


subsection \<open>A blank target\<close>

text \<open>
  C6: when the target is empty or consists of white space only, \<open>startScan\<close> shows the
  alert that asks for a target and returns at once: no probe is issued, and the state
  (statistics, results, scan state and all the rest) is the one before the call.
\<close>

theorem startScan_blank_target:
  assumes "\<forall>c\<in>set (targetUrl s). is_js_space c"
  shows "startScan W s = (Some (lit ''Please enter a target URL''), s) \<and> scan W s [] = s"
  using trim_blank[OF assms] by (simp add: startScan_def scan_def run_def)

theorem startScan_blank_target_witness:
  "startScan commonPaths (initial\<lparr>targetUrl := lit ''   ''\<rparr>) =
     (Some (lit ''Please enter a target URL''), initial\<lparr>targetUrl := lit ''   ''\<rparr>) \<and>
   startScan commonPaths initial = (Some (lit ''Please enter a target URL''), initial)"
  using startScan_blank_target [of "initial\<lparr>targetUrl := lit ''   ''\<rparr>" commonPaths]
    startScan_blank_target [of initial commonPaths]
  by (simp add: initial_def lit_def is_js_space_def)

subsection \<open>A probe that fails\<close>

text \<open>
  C7 at a failing input: the component is fresh, and the \<^verbatim>\<open>fetch\<close> for the first
  candidate rejects with a \<open>TypeError\<close> (the target cannot be reached). The scan goes on
  to the second candidate and holds a result for the first one, flagged as not found,
  with the message of the error as its status; but the statistic that is incremented is
  \<open>notFound\<close>, and \<open>errors\<close> stays 0.
\<close>

theorem transport_error_counted_notFound:
  "scan [lit ''admin'', lit ''login''] (initial\<lparr>targetUrl := lit ''example.com''\<rparr>)
     [(FetchSettled 0
         (Rejected \<lparr>name = lit ''TypeError'', message = lit ''Failed to fetch''\<rparr>),
       lit ''t1''),
      (TimerFired 0, lit ''t1'')] =
   \<lparr>targetUrl = lit ''example.com'', isScanning = True, isPaused = False,
    results = [\<lparr>path = lit ''admin'', url = lit ''https://example.com/admin'',
                status = lit ''Failed to fetch'', found = False, timestamp = lit ''t1''\<rparr>],
    progress = 50, stats = \<lparr>s_found = 0, s_notFound = 1, s_errors = 0\<rparr>,
    controllers = [False], abortControllerRef = Some 0,
    frames = [\<lparr>pc = AwaitFetch 1 (Some 0), closurePaused = False,
               baseUrl = lit ''https://example.com'',
               currentStats = \<lparr>s_found = 0, s_notFound = 1, s_errors = 0\<rparr>\<rparr>]\<rparr>"
  by (simp add: run_defs lit_def)

subsection \<open>What \<open>checkPath\<close> throws\<close>

text \<open>
  C10: for every base URL, candidate path and outcome of the \<^verbatim>\<open>fetch\<close>, \<open>checkPath\<close>
  throws exactly when the \<^verbatim>\<open>fetch\<close> rejects with an error named \<open>AbortError\<close>, and it
  then throws that error; in every other case it returns a result whose \<open>path\<close> is the
  candidate and whose \<open>url\<close> is the base URL, \<open>/\<close> and the candidate. So the handler of
  \<open>startScan\<close> only ever sees an \<open>AbortError\<close>, and the body of the loop never increments
  the \<open>errors\<close> of its invocation.
\<close>

theorem checkPath_throws_iff_aborted:
  "((\<exists>e. checkPath base p outcome now = Inl e) \<longleftrightarrow>
      (\<exists>e. outcome = Rejected e \<and> name e = lit ''AbortError'')) \<and>
   (\<forall>e. checkPath base p outcome now = Inl e \<longrightarrow>
      outcome = Rejected e \<and> name e = lit ''AbortError'') \<and>
   (\<forall>r. checkPath base p outcome now = Inr r \<longrightarrow>
      path r = p \<and> url r = base @ lit ''/'' @ p) \<and>
   s_errors (currentStats (frames (after_checkPath W s k i (checkPath base p outcome now)) ! k)) =
     s_errors (currentStats (frames s ! k))"
proof -
  have upd: "s_errors (currentStats (fs[k := f\<lparr>currentStats := cs, pc := c\<rparr>] ! k)) =
      s_errors (currentStats (fs ! k))"
    if "s_errors cs = s_errors (currentStats (fs ! k))" for fs :: "frame list" and f cs c
    using that by (cases "k < length fs") (simp_all add: list_update_beyond)
  have ret: "currentStats (fs[k := (fs ! k)\<lparr>pc := c\<rparr>] ! k) = currentStats (fs ! k)"
    for fs :: "frame list" and c
    by (cases "k < length fs") (simp_all add: list_update_beyond)
  from checkPath_cases[of base p outcome now]
  have "s_errors (currentStats (frames (after_checkPath W s k i (checkPath base p outcome now)) ! k)) =
      s_errors (currentStats (frames s ! k))"
    by (auto simp: after_checkPath_Inr after_checkPath_abort finish_def upd_frame_def upd ret)
  moreover have "(\<exists>e. checkPath base p outcome now = Inl e) \<longleftrightarrow>
      (\<exists>e. outcome = Rejected e \<and> name e = lit ''AbortError'')"
    by (cases outcome) (auto simp: checkPath_def)
  moreover have "\<forall>e. checkPath base p outcome now = Inl e \<longrightarrow>
      outcome = Rejected e \<and> name e = lit ''AbortError''"
    by (cases outcome) (auto simp: checkPath_def split: if_splits)
  moreover have "\<forall>r. checkPath base p outcome now = Inr r \<longrightarrow>
      path r = p \<and> url r = base @ lit ''/'' @ p"
    by (cases outcome) (auto simp: checkPath_def split: if_splits)
  ultimately show ?thesis by blast
qed

theorem checkPath_throws_iff_aborted_witness:
  "checkPath (lit ''https://example.com'') (lit ''admin'') (Rejected abort_error) (lit ''t1'') =
     Inl abort_error \<and>
   s_errors (currentStats (frames (after_checkPath commonPaths
     (snd (startScan commonPaths (initial\<lparr>targetUrl := lit ''example.com''\<rparr>))) 0 0
     (checkPath (lit ''https://example.com'') (lit ''admin'')
        (Rejected \<lparr>name = lit ''TypeError'', message = lit ''Failed to fetch''\<rparr>)
        (lit ''t1''))) ! 0)) = 0"
proof -
  note aborted = checkPath_throws_iff_aborted
      [of "lit ''https://example.com''" "lit ''admin''" "Rejected abort_error" "lit ''t1''"]
  note failed = checkPath_throws_iff_aborted
      [of "lit ''https://example.com''" "lit ''admin''"
          "Rejected \<lparr>name = lit ''TypeError'', message = lit ''Failed to fetch''\<rparr>" "lit ''t1''"
          commonPaths "snd (startScan commonPaths (initial\<lparr>targetUrl := lit ''example.com''\<rparr>))"
          0 0]
  have "name abort_error = lit ''AbortError''"
    by (simp add: abort_error_def)
  then have "\<exists>e. Rejected abort_error = Rejected e \<and> name e = lit ''AbortError''"
    by blast
  with aborted obtain e
    where e: "checkPath (lit ''https://example.com'') (lit ''admin'') (Rejected abort_error)
                (lit ''t1'') = Inl e"
    by blast
  with aborted have "Rejected abort_error = Rejected e"
    by blast
  with e have "checkPath (lit ''https://example.com'') (lit ''admin'') (Rejected abort_error)
      (lit ''t1'') = Inl abort_error"
    by simp
  moreover have "s_errors (currentStats (frames
      (snd (startScan commonPaths (initial\<lparr>targetUrl := lit ''example.com''\<rparr>))) ! 0)) = 0"
    by (simp add: startScan_def ctl_defs initial_def zero_stats_def trim_def is_js_space_def
        lit_def commonPaths_def)
  ultimately show ?thesis using failed by simp
qed

end
